theory Spec2Isabelle
  imports Main "HOL-Library.Word" "HOL-Library.AList"
begin

section \<open>Soul store (internal/soul/soul.go)\<close>

text \<open>
  A \<open>MemoryEntry\<close> is the Go struct of the same name; \<open>Timestamp\<close> is an \<open>int64\<close>.
  Of the \<open>Soul\<close> struct the model keeps the identity and the memory log, the attribute
  group that \<open>AddMemory\<close> and \<open>GetMemories\<close> touch; the value map and the persona have
  their own locks and are read or written by no function modelled here. The mutexes
  disappear: every function below is one critical section.
\<close>

record MemoryEntry =
  Timestamp :: "64 word"
  Content :: string
  Type :: string
  Tags :: "string list"

record Soul =
  ID :: string
  memory :: "MemoryEntry list"

text \<open>\<open>New\<close> of package soul.\<close>

definition soul_New :: "string \<Rightarrow> Soul" where
  "soul_New sid = \<lparr>ID = sid, memory = []\<rparr>"

definition AddMemory :: "Soul \<Rightarrow> MemoryEntry \<Rightarrow> Soul" where
  "AddMemory s entry = s\<lparr>memory := memory s @ [entry]\<rparr>"

text \<open>The inner loop of \<open>hasMatchingTags\<close>: does \<open>tag\<close> equal some element of \<open>b\<close>?\<close>

fun tagInTargets :: "string \<Rightarrow> string list \<Rightarrow> bool" where
  "tagInTargets tag [] = False"
| "tagInTargets tag (target # b) = (if tag = target then True else tagInTargets tag b)"

fun hasMatchingTags :: "string list \<Rightarrow> string list \<Rightarrow> bool" where
  "hasMatchingTags [] b = False"
| "hasMatchingTags (tag # a) b = (if tagInTargets tag b then True else hasMatchingTags a b)"

text \<open>
  The loop of \<open>GetMemories\<close> over \<open>s.memory\<close>, with the slice \<open>matches\<close> as accumulator.
\<close>

fun matchLoop :: "MemoryEntry list \<Rightarrow> string list \<Rightarrow> MemoryEntry list \<Rightarrow> MemoryEntry list" where
  "matchLoop [] tags matches = matches"
| "matchLoop (entry # rest) tags matches =
     matchLoop rest tags
       (if hasMatchingTags (Tags entry) tags then matches @ [entry] else matches)"

definition GetMemories :: "Soul \<Rightarrow> string list \<Rightarrow> MemoryEntry list" where
  "GetMemories s tags =
     (if length tags = 0 then memory s else matchLoop (memory s) tags [])"


section \<open>Matrix engine (internal/matrix/matrix.go)\<close>

text \<open>
  Values of Go's \<open>interface{}\<close>, as far as the payload maps need them.
\<close>

datatype dyn = DNil | DBool bool | DInt int | DStr string

text \<open>
  The structs \<open>Event\<close>, \<open>Agent\<close>, \<open>Rule\<close> and \<open>Matrix\<close> of package matrix. Field names
  that several structs share carry the struct's name. \<open>time.Time\<close> is an integer count
  of nanoseconds. The registry \<open>map[string]*Agent\<close> is a partial map.

  \<open>Evaluate\<close> receives the \<open>*Matrix\<close> and returns \<open>([]Event, error)\<close>. The model hands it
  the agent registry, the live state a rule reads and may change, and gets back both
  return values (the error as its message, \<open>None\<close> for \<open>nil\<close>) and the registry it left.
  The context argument, which only carries cancellation, is dropped.
\<close>

record matrix_Event =
  event_Type :: string
  event_Timestamp :: int
  AgentID :: string
  event_Data :: "string \<rightharpoonup> dyn"

record matrix_Agent =
  agent_ID :: string
  agent_Type :: string
  State :: "string \<rightharpoonup> dyn"

type_synonym registry = "string \<rightharpoonup> matrix_Agent"

record Rule =
  rule_ID :: string
  Priority :: int
  Evaluate :: "registry \<Rightarrow> (matrix_Event list \<times> string option) \<times> registry"

record Matrix =
  matrix_ID :: string
  rules :: "Rule list"
  agents :: registry

text \<open>
  The \<open>metrics\<close> field is an interface value whose state lives outside the Matrix, and
  rule functions are opaque. What \<open>Step\<close> does to them is kept as a trace of calls, in
  the order \<open>Step\<close> makes them: \<open>Evaluated i evs err\<close> is a call of the \<open>Evaluate\<close> of
  the rule with ID \<open>i\<close> that returned \<open>(evs, err)\<close>; \<open>RecordEvent e\<close> is the call
  \<open>m.metrics.RecordEvent(e)\<close>; \<open>BusPublish e\<close> stands for handing \<open>e\<close> to an Event Bus.
  The Matrix struct holds no bus, and no function of matrix.go emits \<open>BusPublish\<close>.
\<close>

datatype effect =
    Evaluated string "matrix_Event list" "string option"
  | RecordEvent matrix_Event
  | BusPublish matrix_Event

text \<open>
  The errors of package matrix, built there with \<open>fmt.Errorf\<close>:
  \<open>RuleEvaluationFailed i msg\<close> is "rule i evaluation failed: msg",
  \<open>AgentExists i\<close> is "agent with ID i already exists".
\<close>

datatype matrix_error = RuleEvaluationFailed string string | AgentExists string

text \<open>\<open>New\<close> of package matrix; the metrics sink is outside the record.\<close>

definition matrix_New :: "string \<Rightarrow> Matrix" where
  "matrix_New mid = \<lparr>matrix_ID = mid, rules = [], agents = Map.empty\<rparr>"

definition AddRule :: "Matrix \<Rightarrow> Rule \<Rightarrow> Matrix" where
  "AddRule m rule = m\<lparr>rules := rules m @ [rule]\<rparr>"

text \<open>
  \<open>AddAgent\<close> takes a non-nil agent. It returns the error (\<open>None\<close> for \<open>nil\<close>) and the
  Matrix as the call leaves it.
\<close>

definition AddAgent :: "Matrix \<Rightarrow> matrix_Agent \<Rightarrow> matrix_error option \<times> Matrix" where
  "AddAgent m agent =
     (case agents m (agent_ID agent) of
        Some _ \<Rightarrow> (Some (AgentExists (agent_ID agent)), m)
      | None \<Rightarrow> (None, m\<lparr>agents := (agents m)(agent_ID agent \<mapsto> agent)\<rparr>))"

definition GetAgent :: "Matrix \<Rightarrow> string \<Rightarrow> matrix_Agent option" where
  "GetAgent m i = agents m i"

text \<open>
  Each registry entry is stored under the ID of its agent, so that no two entries of a
  registry carry the same ID.
\<close>

definition keyed :: "Matrix \<Rightarrow> bool" where
  "keyed m \<longleftrightarrow> (\<forall>i a. agents m i = Some a \<longrightarrow> agent_ID a = i)"

text \<open>The inner loop of \<open>Step\<close>: one \<open>RecordEvent\<close> call per event, in order.\<close>

fun recordLoop :: "matrix_Event list \<Rightarrow> effect list" where
  "recordLoop [] = []"
| "recordLoop (event # events) = RecordEvent event # recordLoop events"

text \<open>
  The outer loop of \<open>Step\<close> over the copied slice. It returns the error, the Matrix it
  leaves and the trace. On an error of a rule the loop returns at once; the events that
  rule returned beside its error are not recorded.
\<close>

fun ruleLoop :: "Rule list \<Rightarrow> Matrix \<Rightarrow> matrix_error option \<times> Matrix \<times> effect list" where
  "ruleLoop [] m = (None, m, [])"
| "ruleLoop (rule # rest) m =
     (case Evaluate rule (agents m) of
        ((events, Some err), ags) \<Rightarrow>
          (Some (RuleEvaluationFailed (rule_ID rule) err), m\<lparr>agents := ags\<rparr>,
           [Evaluated (rule_ID rule) events (Some err)])
      | ((events, None), ags) \<Rightarrow>
          (case ruleLoop rest (m\<lparr>agents := ags\<rparr>) of
             (res, m', tr) \<Rightarrow>
               (res, m', Evaluated (rule_ID rule) events None # recordLoop events @ tr)))"

text \<open>
  \<open>Step\<close> copies \<open>m.rules\<close> and runs the loop over the copy, in the order of the slice.
  There is no sort.
\<close>

definition Step :: "Matrix \<Rightarrow> matrix_error option \<times> Matrix \<times> effect list" where
  "Step m = ruleLoop (rules m) m"

text \<open>Projections of a trace: the rules called, the events recorded, the events published.\<close>

fun evaluatedIDs :: "effect list \<Rightarrow> string list" where
  "evaluatedIDs [] = []"
| "evaluatedIDs (Evaluated i evs err # tr) = i # evaluatedIDs tr"
| "evaluatedIDs (_ # tr) = evaluatedIDs tr"

fun recorded :: "effect list \<Rightarrow> matrix_Event list" where
  "recorded [] = []"
| "recorded (RecordEvent e # tr) = e # recorded tr"
| "recorded (_ # tr) = recorded tr"

fun published :: "effect list \<Rightarrow> matrix_Event list" where
  "published [] = []"
| "published (BusPublish e # tr) = e # published tr"
| "published (_ # tr) = published tr"

text \<open>The events that successful evaluations returned, in call order.\<close>

fun returnedOK :: "effect list \<Rightarrow> matrix_Event list" where
  "returnedOK [] = []"
| "returnedOK (Evaluated i evs None # tr) = evs @ returnedOK tr"
| "returnedOK (_ # tr) = returnedOK tr"

section \<open>Event bus (internal/transport/eventbus.go)\<close>

text \<open>
  \<open>Event\<close> of package transport; \<open>EventType\<close> is a string type, \<open>Timestamp\<close> an \<open>int64\<close>.
\<close>

record transport_Event =
  bus_Type :: string
  Source :: string
  bus_Timestamp :: "64 word"
  bus_Data :: "string \<rightharpoonup> dyn"

text \<open>
  A buffered Go channel: the queued events (oldest first), the capacity given to
  \<open>make\<close>, and whether \<open>close\<close> has been called on it. Channels are shared between the
  bus and the subscriber that holds the receiving end, so they live in a store,
  \<open>chans\<close>, and are named by their position in it. \<open>subscribers\<close> is the map
  \<open>map[EventType][]chan Event\<close> as an association list from event type to the
  channel names registered for it; a missing key reads as the empty slice.
\<close>

record chan =
  buf :: "transport_Event list"
  cap :: nat
  is_closed :: bool

record EventBus =
  subscribers :: "(string \<times> nat list) list"
  chans :: "chan list"

definition NewEventBus :: EventBus where
  "NewEventBus = \<lparr>subscribers = [], chans = []\<rparr>"

text \<open>\<open>eb.subscribers[eventType]\<close>.\<close>

definition lookupSubs :: "(string \<times> nat list) list \<Rightarrow> string \<Rightarrow> nat list" where
  "lookupSubs al t = (case map_of al t of None \<Rightarrow> [] | Some chs \<Rightarrow> chs)"

text \<open>
  \<open>Subscribe\<close> makes a channel of capacity 100, appends it to the slice of its event
  type and returns it. The goroutine it starts calls \<open>unsubscribe\<close> once the context
  is done; in the model that call is an operation of its own.
\<close>

definition Subscribe :: "EventBus \<Rightarrow> string \<Rightarrow> nat \<times> EventBus" where
  "Subscribe eb eventType =
     (let ch = length (chans eb) in
      (ch, \<lparr>subscribers = AList.update eventType
                            (lookupSubs (subscribers eb) eventType @ [ch]) (subscribers eb),
            chans = chans eb @ [\<lparr>buf = [], cap = 100, is_closed = False\<rparr>]\<rparr>))"

text \<open>
  The \<open>select\<close> with a send case and a \<open>default\<close>: a send on a closed channel panics
  (\<open>None\<close>); otherwise the event is queued if there is room and skipped if not.
\<close>

definition trySend :: "chan \<Rightarrow> transport_Event \<Rightarrow> chan option" where
  "trySend c event =
     (if is_closed c then None
      else if length (buf c) < cap c then Some (c\<lparr>buf := buf c @ [event]\<rparr>)
      else Some c)"

text \<open>
  The loop of \<open>Publish\<close> over the subscriber slice. A channel name outside the store
  has no counterpart in Go; the model treats it like the panic.
\<close>

fun sendLoop :: "nat list \<Rightarrow> transport_Event \<Rightarrow> chan list \<Rightarrow> chan list option" where
  "sendLoop [] event cs = Some cs"
| "sendLoop (ch # rest) event cs =
     (if ch < length cs then
        (case trySend (cs ! ch) event of
           None \<Rightarrow> None
         | Some c \<Rightarrow> sendLoop rest event (cs[ch := c]))
      else None)"

text \<open>\<open>Publish\<close> has no return value; \<open>None\<close> is a panic.\<close>

definition Publish :: "EventBus \<Rightarrow> transport_Event \<Rightarrow> EventBus option" where
  "Publish eb event =
     (case sendLoop (lookupSubs (subscribers eb) (bus_Type event)) event (chans eb) of
        None \<Rightarrow> None
      | Some cs \<Rightarrow> Some (eb\<lparr>chans := cs\<rparr>))"

text \<open>\<open>close(ch)\<close> for each channel of a list; closing a closed channel panics.\<close>

fun closeLoop :: "nat list \<Rightarrow> chan list \<Rightarrow> chan list option" where
  "closeLoop [] cs = Some cs"
| "closeLoop (ch # rest) cs =
     (if ch < length cs \<and> \<not> is_closed (cs ! ch)
      then closeLoop rest (cs[ch := (cs ! ch)\<lparr>is_closed := True\<rparr>])
      else None)"

text \<open>
  \<open>Close\<close> closes every channel of every slice of the map and installs a fresh, empty
  map. Go visits the keys in an unspecified order; the model visits them in the order
  of the association list.
\<close>

definition Close :: "EventBus \<Rightarrow> EventBus option" where
  "Close eb =
     (case closeLoop (concat (map snd (subscribers eb))) (chans eb) of
        None \<Rightarrow> None
      | Some cs \<Rightarrow> Some \<lparr>subscribers = [], chans = cs\<rparr>)"

text \<open>
  \<open>unsubscribe\<close> looks for the channel in the slice of its event type; at the first
  match it closes the channel and removes that element. Without a match it changes
  nothing.
\<close>

definition unsubscribe :: "EventBus \<Rightarrow> string \<Rightarrow> nat \<Rightarrow> EventBus option" where
  "unsubscribe eb eventType ch =
     (let subs = lookupSubs (subscribers eb) eventType in
      if ch \<in> set subs then
        (case closeLoop [ch] (chans eb) of
           None \<Rightarrow> None
         | Some cs \<Rightarrow>
             Some \<lparr>subscribers = AList.update eventType (remove1 ch subs) (subscribers eb),
                   chans = cs\<rparr>)
      else Some eb)"

text \<open>A sequence of \<open>Publish\<close> calls, one per event.\<close>

fun publishAll :: "EventBus \<Rightarrow> transport_Event list \<Rightarrow> EventBus option" where
  "publishAll eb [] = Some eb"
| "publishAll eb (event # events) =
     (case Publish eb event of None \<Rightarrow> None | Some eb' \<Rightarrow> publishAll eb' events)"

text \<open>
  The state of a bus between calls: no channel is registered twice, and every
  registered channel exists and is open. Every reachable bus is in such a state
  (lemma \<open>reachable_wf_bus\<close> below).
\<close>

definition wf_bus :: "EventBus \<Rightarrow> bool" where
  "wf_bus eb \<longleftrightarrow>
     distinct (concat (map snd (subscribers eb)))
     \<and> (\<forall>ch \<in> set (concat (map snd (subscribers eb))).
           ch < length (chans eb) \<and> \<not> is_closed (chans eb ! ch))"

text \<open>
  The receiving end of a channel is held by the subscriber, outside the bus: a receive
  takes the oldest event off the queue.
\<close>

definition receive :: "EventBus \<Rightarrow> nat \<Rightarrow> EventBus" where
  "receive eb ch =
     (if ch < length (chans eb)
      then eb\<lparr>chans := (chans eb)[ch := (chans eb ! ch)\<lparr>buf := tl (buf (chans eb ! ch))\<rparr>]\<rparr>
      else eb)"

text \<open>
  The bus states that calls of the bus and receives by subscribers can produce from a
  new bus.
\<close>

inductive reachable :: "EventBus \<Rightarrow> bool" where
  new: "reachable NewEventBus"
| subscribe: "reachable eb \<Longrightarrow> reachable (snd (Subscribe eb t))"
| publish: "reachable eb \<Longrightarrow> Publish eb e = Some eb' \<Longrightarrow> reachable eb'"
| unsubscribe: "reachable eb \<Longrightarrow> unsubscribe eb t ch = Some eb' \<Longrightarrow> reachable eb'"
| close: "reachable eb \<Longrightarrow> Close eb = Some eb' \<Longrightarrow> reachable eb'"
| receive: "reachable eb \<Longrightarrow> reachable (receive eb ch)"

section \<open>Agent sandbox (package agent)\<close>

text \<open>
  \<open>ResourceLimits\<close> holds a \<open>uint32\<close> and a \<open>uint64\<close>. Of \<open>Config\<close> the two writers are
  left out. Of the \<open>Agent\<close> struct the model keeps the identity and the working buffer
  \<open>memory\<close>; the module and runtime handles appear as resources below.
\<close>

record ResourceLimits =
  MaxMemoryPages :: "32 word"
  MaxFuel :: "64 word"

record Config =
  cfg_ID :: string
  Code :: "8 word list"
  MemSize :: "32 word"

record sandbox_Agent =
  sandbox_ID :: string
  sandbox_memory :: "8 word list"

definition DefaultMemoryLimits :: ResourceLimits where
  "DefaultMemoryLimits = \<lparr>MaxMemoryPages = 256, MaxFuel = 1000000\<rparr>"

text \<open>\<open>Validate\<close> returns the message of its error, \<open>None\<close> for \<open>nil\<close>.\<close>

definition Validate :: "ResourceLimits \<Rightarrow> string option" where
  "Validate l =
     (if MaxMemoryPages l = 0 then Some ''MaxMemoryPages must be greater than 0''
      else if MaxMemoryPages l > 65536
        then Some ''MaxMemoryPages exceeds maximum allowed (65536)''
      else None)"

text \<open>
  The wazero library is outside the repository. Its three calls that can fail are
  parameters of the model, each giving the message of its error or \<open>None\<close>.
\<close>

record Wazero =
  hostInstantiate :: "string option"
  CompileModule :: "8 word list \<Rightarrow> string option"
  InstantiateModule :: "8 word list \<Rightarrow> string option"

text \<open>
  The errors of \<open>New\<close>, one constructor per \<open>fmt.Errorf\<close> wrapper, in source order:
  "invalid resource limits", "failed to instantiate host module", "failed to compile
  module", "failed to instantiate module".
\<close>

datatype agent_error =
    InvalidResourceLimits string
  | HostModuleFailed string
  | CompileFailed string
  | InstantiateFailed string

text \<open>
  What \<open>New\<close> has allocated when it returns, in order: the runtime with its page limit,
  the host module with the four host functions, the compiled module, the module
  instance, the working buffer with its size.
\<close>

datatype resource =
    Runtime "32 word"
  | HostModule
  | Compiled
  | Instance
  | Buffer nat

text \<open>
  \<open>New\<close> of package agent. The default buffer size is computed in \<open>uint32\<close>, as in the
  source.
\<close>

definition agent_New ::
  "Wazero \<Rightarrow> Config \<Rightarrow> ResourceLimits \<Rightarrow> (agent_error + sandbox_Agent) \<times> resource list" where
  "agent_New w cfg limits =
     (case Validate limits of
        Some err \<Rightarrow> (Inl (InvalidResourceLimits err), [])
      | None \<Rightarrow>
         (case hostInstantiate w of
            Some err \<Rightarrow> (Inl (HostModuleFailed err), [Runtime (MaxMemoryPages limits)])
          | None \<Rightarrow>
             (case CompileModule w (Code cfg) of
                Some err \<Rightarrow>
                  (Inl (CompileFailed err), [Runtime (MaxMemoryPages limits), HostModule])
              | None \<Rightarrow>
                 (case InstantiateModule w (Code cfg) of
                    Some err \<Rightarrow>
                      (Inl (InstantiateFailed err),
                       [Runtime (MaxMemoryPages limits), HostModule, Compiled])
                  | None \<Rightarrow>
                     (let memSize = (if MemSize cfg = 0
                                     then MaxMemoryPages limits * 65536
                                     else MemSize cfg)
                      in (Inr \<lparr>sandbox_ID = cfg_ID cfg,
                               sandbox_memory = replicate (unat memSize) 0\<rparr>,
                          [Runtime (MaxMemoryPages limits), HostModule, Compiled, Instance,
                           Buffer (unat memSize)]))))))"

text \<open>
  What a host call could reach: the guest's linear memory, the agent's working buffer,
  the log sink (the byte strings logged so far) and the outbound messages handed on
  (target and message). A host function has no return value, so a failure would be a
  trap. The four bodies in the source are empty.
\<close>

record HostState =
  guestMemory :: "8 word list"
  agentMemory :: "8 word list"
  logSink :: "8 word list list"
  outbound :: "(8 word list \<times> 8 word list) list"

datatype trap = InvalidAccess

definition hostLog :: "HostState \<Rightarrow> 32 word \<Rightarrow> 32 word \<Rightarrow> trap option \<times> HostState" where
  "hostLog s offset len = (None, s)"

definition hostSend ::
  "HostState \<Rightarrow> 32 word \<Rightarrow> 32 word \<Rightarrow> 32 word \<Rightarrow> 32 word \<Rightarrow> trap option \<times> HostState" where
  "hostSend s targetOffset targetLength msgOffset msgLength = (None, s)"

definition hostGetMemory :: "HostState \<Rightarrow> 32 word \<Rightarrow> 32 word \<Rightarrow> trap option \<times> HostState" where
  "hostGetMemory s offset len = (None, s)"

definition hostSetMemory :: "HostState \<Rightarrow> 32 word \<Rightarrow> 32 word \<Rightarrow> trap option \<times> HostState" where
  "hostSetMemory s offset len = (None, s)"

section \<open>Sample inputs\<close>

text \<open>
  A rule that returns the given events and error and leaves the registry alone, an
  event, a bus event, and a runtime whose calls all succeed.
\<close>

definition constRule :: "string \<Rightarrow> int \<Rightarrow> matrix_Event list \<Rightarrow> string option \<Rightarrow> Rule" where
  "constRule i p evs err = \<lparr>rule_ID = i, Priority = p, Evaluate = (\<lambda>ags. ((evs, err), ags))\<rparr>"

definition tick :: "string \<Rightarrow> matrix_Event" where
  "tick a = \<lparr>event_Type = ''tick'', event_Timestamp = 0, AgentID = a, event_Data = Map.empty\<rparr>"

definition agentEvent :: "string \<Rightarrow> transport_Event" where
  "agentEvent src = \<lparr>bus_Type = ''agent'', Source = src, bus_Timestamp = 0, bus_Data = Map.empty\<rparr>"

definition okRuntime :: Wazero where
  "okRuntime = \<lparr>hostInstantiate = None, CompileModule = (\<lambda>code. None),
                InstantiateModule = (\<lambda>code. None)\<rparr>"

section \<open>Properties of the soul store\<close>

lemma tagInTargets_iff: "tagInTargets tag b \<longleftrightarrow> tag \<in> set b"
  by (induction b) auto

lemma hasMatchingTags_iff: "hasMatchingTags a b \<longleftrightarrow> set a \<inter> set b \<noteq> {}"
  by (induction a) (auto simp: tagInTargets_iff)

lemma matchLoop_filter:
  "matchLoop ms tags acc = acc @ filter (\<lambda>e. hasMatchingTags (Tags e) tags) ms"
  by (induction ms arbitrary: acc) auto

lemma memory_foldl_AddMemory: "memory (foldl AddMemory s es) = memory s @ es"
  by (induction es arbitrary: s) (auto simp: AddMemory_def)

text \<open>
  Claim C8. After any sequence \<open>es\<close> of \<open>AddMemory\<close> calls on a soul, \<open>GetMemories\<close> with
  no tags returns the whole log (what the soul held before, then \<open>es\<close> in call order,
  nothing lost and nothing repeated; on a new soul that is \<open>es\<close> itself), and
  with a non-empty tag list \<open>T\<close> it returns, in log order, exactly the entries whose tag
  set has an element in common with \<open>T\<close>.
\<close>

theorem GetMemories_spec:
  "GetMemories (foldl AddMemory s es) [] = memory s @ es
   \<and> GetMemories (foldl AddMemory (soul_New sid) es) [] = es
   \<and> (T \<noteq> [] \<longrightarrow>
        GetMemories (foldl AddMemory s es) T =
          filter (\<lambda>e. set (Tags e) \<inter> set T \<noteq> {}) (memory s @ es))"
  by (simp add: GetMemories_def memory_foldl_AddMemory matchLoop_filter
        hasMatchingTags_iff soul_New_def)

theorem GetMemories_spec_witness:
  "[''x''] \<noteq> ([] :: string list)
   \<and> GetMemories (foldl AddMemory (soul_New ''s'')
        [\<lparr>Timestamp = 1, Content = ''a'', Type = ''t'', Tags = [''x'', ''y'']\<rparr>,
         \<lparr>Timestamp = 2, Content = ''b'', Type = ''t'', Tags = [''z'']\<rparr>,
         \<lparr>Timestamp = 3, Content = ''c'', Type = ''t'', Tags = [''w'', ''x'']\<rparr>]) [''x'']
     = [\<lparr>Timestamp = 1, Content = ''a'', Type = ''t'', Tags = [''x'', ''y'']\<rparr>,
        \<lparr>Timestamp = 3, Content = ''c'', Type = ''t'', Tags = [''w'', ''x'']\<rparr>]"
  using GetMemories_spec [of "soul_New ''s''"
      "[\<lparr>Timestamp = 1, Content = ''a'', Type = ''t'', Tags = [''x'', ''y'']\<rparr>,
        \<lparr>Timestamp = 2, Content = ''b'', Type = ''t'', Tags = [''z'']\<rparr>,
        \<lparr>Timestamp = 3, Content = ''c'', Type = ''t'', Tags = [''w'', ''x'']\<rparr>]"
      "''s''" "[''x'']"]
  by (simp add: soul_New_def)

section \<open>Properties of the matrix engine\<close>


lemma recorded_append: "recorded (a @ b) = recorded a @ recorded b"
  by (induction a rule: recorded.induct) auto

lemma published_append: "published (a @ b) = published a @ published b"
  by (induction a rule: published.induct) auto

lemma returnedOK_append: "returnedOK (a @ b) = returnedOK a @ returnedOK b"
  by (induction a rule: returnedOK.induct) auto

lemma evaluatedIDs_append: "evaluatedIDs (a @ b) = evaluatedIDs a @ evaluatedIDs b"
  by (induction a rule: evaluatedIDs.induct) auto

lemma recordLoop_projections:
  "recorded (recordLoop evs) = evs" "published (recordLoop evs) = []"
  "returnedOK (recordLoop evs) = []" "evaluatedIDs (recordLoop evs) = []"
  by (induction evs) auto

lemma ruleLoop_rules: "ruleLoop rs m = (res, m', tr) \<Longrightarrow> rules m' = rules m \<and> matrix_ID m' = matrix_ID m"
proof (induction rs arbitrary: m res m' tr)
  case Nil
  then show ?case by simp
next
  case (Cons r rs)
  obtain evs err ags where ev: "Evaluate r (agents m) = ((evs, err), ags)"
    by (metis prod.exhaust)
  show ?case
  proof (cases err)
    case None
    obtain res2 m2 t2 where rl: "ruleLoop rs (m\<lparr>agents := ags\<rparr>) = (res2, m2, t2)"
      by (metis prod.exhaust)
    with Cons.prems ev None have "m' = m2" by simp
    with Cons.IH [OF rl] show ?thesis by simp
  next
    case (Some msg)
    with Cons.prems ev show ?thesis by auto
  qed
qed

lemma ruleLoop_append:
  "ruleLoop pre m = (None, m1, t1) \<Longrightarrow>
   ruleLoop (pre @ post) m = (case ruleLoop post m1 of (res, m2, t2) \<Rightarrow> (res, m2, t1 @ t2))"
proof (induction pre arbitrary: m m1 t1)
  case Nil
  then show ?case by (simp split: prod.splits)
next
  case (Cons r pre)
  obtain evs err ags where ev: "Evaluate r (agents m) = ((evs, err), ags)"
    by (metis prod.exhaust)
  show ?case
  proof (cases err)
    case None
    obtain res2 m2 t2 where rl: "ruleLoop pre (m\<lparr>agents := ags\<rparr>) = (res2, m2, t2)"
      by (metis prod.exhaust)
    with Cons.prems ev None have eqs: "res2 = None" "m2 = m1"
      "t1 = Evaluated (rule_ID r) evs None # recordLoop evs @ t2" by simp_all
    from Cons.IH [of "m\<lparr>agents := ags\<rparr>" m1 t2] rl eqs
    have "ruleLoop (pre @ post) (m\<lparr>agents := ags\<rparr>) =
            (case ruleLoop post m1 of (res, m2, t2') \<Rightarrow> (res, m2, t2 @ t2'))" by simp
    with ev None eqs show ?thesis by (simp split: prod.splits)
  next
    case (Some msg)
    with Cons.prems ev show ?thesis by simp
  qed
qed

lemma ruleLoop_success_ids:
  "ruleLoop rs m = (None, m', tr) \<Longrightarrow> evaluatedIDs tr = map rule_ID rs"
proof (induction rs arbitrary: m m' tr)
  case Nil
  then show ?case by simp
next
  case (Cons r rs)
  obtain evs err ags where ev: "Evaluate r (agents m) = ((evs, err), ags)"
    by (metis prod.exhaust)
  show ?case
  proof (cases err)
    case None
    obtain res2 m2 t2 where rl: "ruleLoop rs (m\<lparr>agents := ags\<rparr>) = (res2, m2, t2)"
      by (metis prod.exhaust)
    with Cons.prems ev None have eqs: "res2 = None"
      "tr = Evaluated (rule_ID r) evs None # recordLoop evs @ t2" by simp_all
    from Cons.IH [of "m\<lparr>agents := ags\<rparr>" m2 t2] rl eqs
    have "evaluatedIDs t2 = map rule_ID rs" by simp
    with eqs show ?thesis by (simp add: evaluatedIDs_append recordLoop_projections)
  next
    case (Some msg)
    with Cons.prems ev show ?thesis by simp
  qed
qed

lemma ruleLoop_recorded:
  "ruleLoop rs m = (res, m', tr) \<Longrightarrow> recorded tr = returnedOK tr \<and> published tr = []"
proof (induction rs arbitrary: m res m' tr)
  case Nil
  then show ?case by simp
next
  case (Cons r rs)
  obtain evs err ags where ev: "Evaluate r (agents m) = ((evs, err), ags)"
    by (metis prod.exhaust)
  show ?case
  proof (cases err)
    case None
    obtain res2 m2 t2 where rl: "ruleLoop rs (m\<lparr>agents := ags\<rparr>) = (res2, m2, t2)"
      by (metis prod.exhaust)
    with Cons.prems ev None have eqs:
      "tr = Evaluated (rule_ID r) evs None # recordLoop evs @ t2" by simp_all
    from Cons.IH [OF rl] eqs
    show ?thesis by (simp add: recorded_append published_append returnedOK_append recordLoop_projections)
  next
    case (Some msg)
    with Cons.prems ev show ?thesis by auto
  qed
qed



text \<open>
  Claim C2 (the code evaluates in insertion order). Three rules added with priorities
  1, 5 and 3, in that order, are evaluated by \<open>Step\<close> in the order 1, 5, 3: the
  order of \<open>AddRule\<close> calls, not descending priority, which would be 5, 3, 1.
\<close>

theorem Step_insertion_order:
  "evaluatedIDs (snd (snd (Step
     (AddRule (AddRule (AddRule (matrix_New ''m'')
        (constRule ''p1'' 1 [] None))
        (constRule ''p5'' 5 [] None))
        (constRule ''p3'' 3 [] None)))))
   = [''p1'', ''p5'', ''p3'']"
  by (simp add: Step_def AddRule_def matrix_New_def constRule_def)

text \<open>
  Claim C3 as stated fails: a step over one rule that returns one event records that
  event with the metrics sink and publishes nothing, so it is not the case that the
  recorded events and the published events both equal the events returned.
\<close>

theorem Step_publish_counterexample:
  "\<not> (recorded (snd (snd (Step (AddRule (matrix_New ''m'')
              (constRule ''r'' 0 [tick ''a''] None)))))
        = returnedOK (snd (snd (Step (AddRule (matrix_New ''m'')
              (constRule ''r'' 0 [tick ''a''] None)))))
      \<and> published (snd (snd (Step (AddRule (matrix_New ''m'')
              (constRule ''r'' 0 [tick ''a''] None)))))
        = returnedOK (snd (snd (Step (AddRule (matrix_New ''m'')
              (constRule ''r'' 0 [tick ''a''] None))))))"
  by (simp add: Step_def AddRule_def matrix_New_def constRule_def)

text \<open>
  Claim C3, amended. In every step, the events handed to the metrics sink are exactly
  the events returned by the successful rule evaluations, in the order the rules
  returned them; the step publishes nothing on an Event Bus.
\<close>

theorem Step_records_in_order:
  "recorded (snd (snd (Step m))) = returnedOK (snd (snd (Step m)))
   \<and> published (snd (snd (Step m))) = []"
  using ruleLoop_recorded [of "rules m" m "fst (Step m)" "fst (snd (Step m))" "snd (snd (Step m))"]
  by (simp add: Step_def)

text \<open>
  Claim C5. Let the rule list be \<open>pre @ r # post\<close>, let the rules of \<open>pre\<close> all succeed,
  leaving the Matrix \<open>m1\<close> and the trace \<open>t1\<close>, and let \<open>r\<close> fail on that state with
  message \<open>msg\<close>. Then \<open>Step\<close> returns the rule evaluation error naming \<open>r\<close>; the rules
  evaluated are those of \<open>pre\<close> and then \<open>r\<close>, none of \<open>post\<close>; the trace still holds
  \<open>t1\<close>, so the events recorded are exactly those the rules of \<open>pre\<close> returned; and the
  Matrix left behind has the same rule list, ready for the next step.
\<close>

theorem Step_rule_failure:
  assumes "rules m = pre @ r # post"
    and "ruleLoop pre m = (None, m1, t1)"
    and "Evaluate r (agents m1) = ((evs, Some msg), ags)"
  shows "Step m = (Some (RuleEvaluationFailed (rule_ID r) msg), m1\<lparr>agents := ags\<rparr>,
                   t1 @ [Evaluated (rule_ID r) evs (Some msg)])
         \<and> evaluatedIDs (snd (snd (Step m))) = map rule_ID pre @ [rule_ID r]
         \<and> recorded (snd (snd (Step m))) = recorded t1
         \<and> recorded t1 = returnedOK t1
         \<and> rules (fst (snd (Step m))) = rules m"
proof -
  have rl: "ruleLoop (r # post) m1 =
      (Some (RuleEvaluationFailed (rule_ID r) msg), m1\<lparr>agents := ags\<rparr>,
       [Evaluated (rule_ID r) evs (Some msg)])"
    using assms(3) by simp
  have st: "Step m = (Some (RuleEvaluationFailed (rule_ID r) msg), m1\<lparr>agents := ags\<rparr>,
                   t1 @ [Evaluated (rule_ID r) evs (Some msg)])"
    unfolding Step_def assms(1) using ruleLoop_append [OF assms(2), of "r # post"] rl
    by simp
  have ids: "evaluatedIDs t1 = map rule_ID pre"
    using ruleLoop_success_ids [OF assms(2)] .
  have rec: "recorded t1 = returnedOK t1"
    using ruleLoop_recorded [OF assms(2)] by simp
  have rls: "rules m1 = rules m"
    using ruleLoop_rules [OF assms(2)] by simp
  show ?thesis
    using st ids rec rls by (simp add: evaluatedIDs_append recorded_append)
qed

text \<open>
  Three rules, the second failing: the event of the first is recorded, the third is
  never evaluated, the error names the second.
\<close>

theorem Step_rule_failure_witness:
  "Step \<lparr>matrix_ID = ''m'',
         rules = [constRule ''r1'' 0 [tick ''a''] None,
                  constRule ''r2'' 0 [] (Some ''boom''),
                  constRule ''r3'' 0 [tick ''c''] None],
         agents = Map.empty\<rparr>
   = (Some (RuleEvaluationFailed ''r2'' ''boom''),
      \<lparr>matrix_ID = ''m'',
         rules = [constRule ''r1'' 0 [tick ''a''] None,
                  constRule ''r2'' 0 [] (Some ''boom''),
                  constRule ''r3'' 0 [tick ''c''] None],
         agents = Map.empty\<rparr>,
      [Evaluated ''r1'' [tick ''a''] None, RecordEvent (tick ''a''),
       Evaluated ''r2'' [] (Some ''boom'')])"
  using Step_rule_failure [of
      "\<lparr>matrix_ID = ''m'',
         rules = [constRule ''r1'' 0 [tick ''a''] None,
                  constRule ''r2'' 0 [] (Some ''boom''),
                  constRule ''r3'' 0 [tick ''c''] None],
         agents = Map.empty\<rparr>"
      "[constRule ''r1'' 0 [tick ''a''] None]"
      "constRule ''r2'' 0 [] (Some ''boom'')"
      "[constRule ''r3'' 0 [tick ''c''] None]"
      "\<lparr>matrix_ID = ''m'',
         rules = [constRule ''r1'' 0 [tick ''a''] None,
                  constRule ''r2'' 0 [] (Some ''boom''),
                  constRule ''r3'' 0 [tick ''c''] None],
         agents = Map.empty\<rparr>"
      "[Evaluated ''r1'' [tick ''a''] None, RecordEvent (tick ''a'')]"
      "[]" "''boom''" "Map.empty"]
  by (simp add: constRule_def)

text \<open>
  Claim C10. \<open>AddRule\<close> returns no error and has no failing branch; it puts the rule at
  the end of the list and leaves the registry alone, whatever the IDs of the rules
  already there. In a step over the extended list in which no rule fails, every rule
  is evaluated, the new one last, same-ID rules included.
\<close>

theorem AddRule_no_uniqueness:
  "rules (AddRule m r) = rules m @ [r]
   \<and> agents (AddRule m r) = agents m
   \<and> (fst (Step (AddRule m r)) = None \<longrightarrow>
        evaluatedIDs (snd (snd (Step (AddRule m r)))) = map rule_ID (rules m) @ [rule_ID r])"
proof -
  have "fst (Step (AddRule m r)) = None \<Longrightarrow>
        evaluatedIDs (snd (snd (Step (AddRule m r)))) = map rule_ID (rules m) @ [rule_ID r]"
    using ruleLoop_success_ids [of "rules m @ [r]" "AddRule m r"
        "fst (snd (Step (AddRule m r)))" "snd (snd (Step (AddRule m r)))"]
    by (simp add: Step_def AddRule_def) (metis prod.collapse)
  then show ?thesis by (simp add: AddRule_def)
qed

text \<open>Two rules with the same ID: both are in the list and both are evaluated.\<close>

theorem AddRule_no_uniqueness_witness:
  "fst (Step (AddRule (AddRule (matrix_New ''m'') (constRule ''dup'' 1 [tick ''a''] None))
                      (constRule ''dup'' 2 [tick ''b''] None))) = None
   \<and> map rule_ID (rules (AddRule (AddRule (matrix_New ''m'')
                      (constRule ''dup'' 1 [tick ''a''] None))
                      (constRule ''dup'' 2 [tick ''b''] None))) = [''dup'', ''dup'']
   \<and> evaluatedIDs (snd (snd (Step (AddRule (AddRule (matrix_New ''m'')
                      (constRule ''dup'' 1 [tick ''a''] None))
                      (constRule ''dup'' 2 [tick ''b''] None))))) = [''dup'', ''dup'']"
proof -
  have ok: "fst (Step (AddRule (AddRule (matrix_New ''m'')
                      (constRule ''dup'' 1 [tick ''a''] None))
                      (constRule ''dup'' 2 [tick ''b''] None))) = None"
    by (simp add: Step_def AddRule_def matrix_New_def constRule_def)
  have rs: "map rule_ID (rules (AddRule (matrix_New ''m'')
                      (constRule ''dup'' 1 [tick ''a''] None))) = [''dup'']"
    by (simp add: AddRule_def matrix_New_def constRule_def)
  have r2: "rule_ID (constRule ''dup'' 2 [tick ''b''] None) = ''dup''"
    by (simp add: constRule_def)
  from AddRule_no_uniqueness [of
      "AddRule (matrix_New ''m'') (constRule ''dup'' 1 [tick ''a''] None)"
      "constRule ''dup'' 2 [tick ''b''] None"] ok rs r2
  show ?thesis by simp
qed

text \<open>
  Claim C7. \<open>AddAgent\<close> with an ID that the registry already holds returns the
  "already exists" error and leaves the Matrix as it was. With an ID the registry does
  not hold it returns no error, and the registry then holds that agent under its ID
  and is unchanged at every other ID. A registry whose entries are each stored under
  their agent's ID stays so, which keeps the IDs of a Matrix unique.
\<close>

theorem AddAgent_spec:
  "(agents m (agent_ID a) \<noteq> None \<longrightarrow> AddAgent m a = (Some (AgentExists (agent_ID a)), m))
   \<and> (agents m (agent_ID a) = None \<longrightarrow>
        AddAgent m a = (None, m\<lparr>agents := (agents m)(agent_ID a \<mapsto> a)\<rparr>)
        \<and> GetAgent (snd (AddAgent m a)) (agent_ID a) = Some a
        \<and> (\<forall>i. i \<noteq> agent_ID a \<longrightarrow> GetAgent (snd (AddAgent m a)) i = GetAgent m i))
   \<and> (keyed m \<longrightarrow> keyed (snd (AddAgent m a)))"
  by (auto simp: AddAgent_def GetAgent_def keyed_def split: option.splits)

text \<open>
  Two agents with the same ID added to a new Matrix: the first call succeeds, the
  second fails and the registry still holds the first agent.
\<close>

theorem AddAgent_spec_witness:
  "keyed (matrix_New ''m'')
   \<and> fst (AddAgent (matrix_New ''m'')
            \<lparr>agent_ID = ''a1'', agent_Type = ''bot'', State = Map.empty\<rparr>) = None
   \<and> AddAgent (snd (AddAgent (matrix_New ''m'')
                  \<lparr>agent_ID = ''a1'', agent_Type = ''bot'', State = Map.empty\<rparr>))
        \<lparr>agent_ID = ''a1'', agent_Type = ''human'', State = Map.empty\<rparr>
      = (Some (AgentExists ''a1''),
         snd (AddAgent (matrix_New ''m'')
                \<lparr>agent_ID = ''a1'', agent_Type = ''bot'', State = Map.empty\<rparr>))
   \<and> GetAgent (snd (AddAgent (matrix_New ''m'')
                  \<lparr>agent_ID = ''a1'', agent_Type = ''bot'', State = Map.empty\<rparr>)) ''a1''
      = Some \<lparr>agent_ID = ''a1'', agent_Type = ''bot'', State = Map.empty\<rparr>"
proof -
  have k: "keyed (matrix_New ''m'')"
    by (simp add: keyed_def matrix_New_def)
  have fresh: "agents (matrix_New ''m'')
      (agent_ID \<lparr>agent_ID = ''a1'', agent_Type = ''bot'', State = Map.empty\<rparr>) = None"
    by (simp add: matrix_New_def)
  note first = AddAgent_spec [of "matrix_New ''m''"
      "\<lparr>agent_ID = ''a1'', agent_Type = ''bot'', State = Map.empty\<rparr>"]
  have raw1: "AddAgent (matrix_New ''m'')
              \<lparr>agent_ID = ''a1'', agent_Type = ''bot'', State = Map.empty\<rparr>
            = (None, (matrix_New ''m'')\<lparr>agents := (agents (matrix_New ''m''))
                 (agent_ID \<lparr>agent_ID = ''a1'', agent_Type = ''bot'', State = Map.empty\<rparr>
                    \<mapsto> \<lparr>agent_ID = ''a1'', agent_Type = ''bot'', State = Map.empty\<rparr>)\<rparr>)"
    using first fresh by blast
  have raw2: "GetAgent (snd (AddAgent (matrix_New ''m'')
                  \<lparr>agent_ID = ''a1'', agent_Type = ''bot'', State = Map.empty\<rparr>))
               (agent_ID \<lparr>agent_ID = ''a1'', agent_Type = ''bot'', State = Map.empty\<rparr>)
      = Some \<lparr>agent_ID = ''a1'', agent_Type = ''bot'', State = Map.empty\<rparr>"
    using first fresh by blast
  have r1: "AddAgent (matrix_New ''m'')
              \<lparr>agent_ID = ''a1'', agent_Type = ''bot'', State = Map.empty\<rparr>
            = (None, (matrix_New ''m'')\<lparr>agents := (agents (matrix_New ''m''))
                 (''a1'' \<mapsto> \<lparr>agent_ID = ''a1'', agent_Type = ''bot'', State = Map.empty\<rparr>)\<rparr>)"
    using raw1 by simp
  have g1: "GetAgent (snd (AddAgent (matrix_New ''m'')
                  \<lparr>agent_ID = ''a1'', agent_Type = ''bot'', State = Map.empty\<rparr>)) ''a1''
      = Some \<lparr>agent_ID = ''a1'', agent_Type = ''bot'', State = Map.empty\<rparr>"
    using raw2 by simp
  have taken: "agents (snd (AddAgent (matrix_New ''m'')
                  \<lparr>agent_ID = ''a1'', agent_Type = ''bot'', State = Map.empty\<rparr>))
      (agent_ID \<lparr>agent_ID = ''a1'', agent_Type = ''human'', State = Map.empty\<rparr>) \<noteq> None"
    unfolding r1 by simp
  note second = AddAgent_spec [of
      "snd (AddAgent (matrix_New ''m'')
                  \<lparr>agent_ID = ''a1'', agent_Type = ''bot'', State = Map.empty\<rparr>)"
      "\<lparr>agent_ID = ''a1'', agent_Type = ''human'', State = Map.empty\<rparr>"]
  have r2: "AddAgent (snd (AddAgent (matrix_New ''m'')
                  \<lparr>agent_ID = ''a1'', agent_Type = ''bot'', State = Map.empty\<rparr>))
        \<lparr>agent_ID = ''a1'', agent_Type = ''human'', State = Map.empty\<rparr>
      = (Some (AgentExists ''a1''),
         snd (AddAgent (matrix_New ''m'')
                \<lparr>agent_ID = ''a1'', agent_Type = ''bot'', State = Map.empty\<rparr>))"
    using second taken by simp
  have f1: "fst (AddAgent (matrix_New ''m'')
            \<lparr>agent_ID = ''a1'', agent_Type = ''bot'', State = Map.empty\<rparr>) = None"
    unfolding r1 by simp
  from k f1 r2 g1 show ?thesis by blast
qed

section \<open>Properties of the event bus\<close>

lemma lookupSubs_subset: "set (lookupSubs al t) \<subseteq> set (concat (map snd al))"
  by (induction al) (auto simp: lookupSubs_def split: if_splits)

lemma lookupSubs_distinct: "distinct (concat (map snd al)) \<Longrightarrow> distinct (lookupSubs al t)"
  by (induction al) (auto simp: lookupSubs_def)

lemma sendLoop_spec:
  "distinct chs \<Longrightarrow> \<forall>ch \<in> set chs. ch < length cs \<and> \<not> is_closed (cs ! ch) \<Longrightarrow>
   \<exists>cs'. sendLoop chs e cs = Some cs' \<and> length cs' = length cs
     \<and> (\<forall>a < length cs. cs' ! a =
           (if a \<in> set chs \<and> length (buf (cs ! a)) < cap (cs ! a)
            then (cs ! a)\<lparr>buf := buf (cs ! a) @ [e]\<rparr> else cs ! a))"
proof (induction chs arbitrary: cs)
  case Nil
  then show ?case by simp
next
  case (Cons ch chs)
  from Cons.prems have ch: "ch < length cs" "\<not> is_closed (cs ! ch)" "ch \<notin> set chs" "distinct chs"
    by auto
  define c where "c = (if length (buf (cs ! ch)) < cap (cs ! ch)
                       then (cs ! ch)\<lparr>buf := buf (cs ! ch) @ [e]\<rparr> else cs ! ch)"
  have ts: "trySend (cs ! ch) e = Some c"
    using ch by (simp add: trySend_def c_def)
  have pre: "\<forall>a \<in> set chs. a < length (cs[ch := c]) \<and> \<not> is_closed (cs[ch := c] ! a)"
    using Cons.prems(2) ch by (auto simp: nth_list_update)
  from Cons.IH [OF ch(4) pre] obtain cs' where
    s: "sendLoop chs e (cs[ch := c]) = Some cs'" and l: "length cs' = length cs"
    and v: "\<forall>a < length cs. cs' ! a =
           (if a \<in> set chs \<and> length (buf (cs[ch := c] ! a)) < cap (cs[ch := c] ! a)
            then (cs[ch := c] ! a)\<lparr>buf := buf (cs[ch := c] ! a) @ [e]\<rparr> else cs[ch := c] ! a)"
    by auto
  have "sendLoop (ch # chs) e cs = Some cs'"
    using ch ts s by simp
  moreover have "\<forall>a < length cs. cs' ! a =
           (if a \<in> set (ch # chs) \<and> length (buf (cs ! a)) < cap (cs ! a)
            then (cs ! a)\<lparr>buf := buf (cs ! a) @ [e]\<rparr> else cs ! a)"
  proof (intro allI impI)
    fix a assume a: "a < length cs"
    show "cs' ! a = (if a \<in> set (ch # chs) \<and> length (buf (cs ! a)) < cap (cs ! a)
            then (cs ! a)\<lparr>buf := buf (cs ! a) @ [e]\<rparr> else cs ! a)"
    proof (cases "a = ch")
      case True
      with v a ch show ?thesis by (simp add: c_def)
    next
      case False
      with v a show ?thesis by (simp add: nth_list_update)
    qed
  qed
  ultimately show ?case using l by blast
qed

lemma closeLoop_spec:
  "distinct chs \<Longrightarrow> \<forall>ch \<in> set chs. ch < length cs \<and> \<not> is_closed (cs ! ch) \<Longrightarrow>
   \<exists>cs'. closeLoop chs cs = Some cs' \<and> length cs' = length cs
     \<and> (\<forall>a < length cs. cs' ! a =
           (if a \<in> set chs then (cs ! a)\<lparr>is_closed := True\<rparr> else cs ! a))"
proof (induction chs arbitrary: cs)
  case Nil
  then show ?case by simp
next
  case (Cons ch chs)
  from Cons.prems have ch: "ch < length cs" "\<not> is_closed (cs ! ch)" "ch \<notin> set chs" "distinct chs"
    by auto
  let ?cs = "cs[ch := (cs ! ch)\<lparr>is_closed := True\<rparr>]"
  have pre: "\<forall>a \<in> set chs. a < length ?cs \<and> \<not> is_closed (?cs ! a)"
    using Cons.prems(2) ch by (auto simp: nth_list_update)
  from Cons.IH [OF ch(4) pre] obtain cs' where
    s: "closeLoop chs ?cs = Some cs'" and l: "length cs' = length cs"
    and v: "\<forall>a < length cs. cs' ! a =
           (if a \<in> set chs then (?cs ! a)\<lparr>is_closed := True\<rparr> else ?cs ! a)"
    by auto
  have "closeLoop (ch # chs) cs = Some cs'"
    using ch s by simp
  moreover have "\<forall>a < length cs. cs' ! a =
           (if a \<in> set (ch # chs) then (cs ! a)\<lparr>is_closed := True\<rparr> else cs ! a)"
  proof (intro allI impI)
    fix a assume a: "a < length cs"
    show "cs' ! a = (if a \<in> set (ch # chs) then (cs ! a)\<lparr>is_closed := True\<rparr> else cs ! a)"
    proof (cases "a = ch")
      case True
      with v a ch show ?thesis by simp
    next
      case False
      with v a show ?thesis by (simp add: nth_list_update)
    qed
  qed
  ultimately show ?case using l by blast
qed



lemma lookupSubs_update: "lookupSubs (AList.update t v al) t' = (if t' = t then v else lookupSubs al t')"
  by (simp add: lookupSubs_def update_conv')

lemma lookupSubs_Cons:
  "lookupSubs ((k, v) # al) t = (if k = t then v else lookupSubs al t)"
  by (simp add: lookupSubs_def)

lemma set_concat_update:
  "set (concat (map snd (AList.update t (lookupSubs al t @ [c]) al)))
     = insert c (set (concat (map snd al)))"
  by (induction al) (auto simp: lookupSubs_def)

lemma distinct_concat_update:
  "distinct (concat (map snd al)) \<Longrightarrow> c \<notin> set (concat (map snd al)) \<Longrightarrow>
   distinct (concat (map snd (AList.update t (lookupSubs al t @ [c]) al)))"
proof (induction al)
  case Nil
  then show ?case by (simp add: lookupSubs_def)
next
  case (Cons kv al)
  obtain k v where kv: "kv = (k, v)" by (cases kv)
  show ?case
  proof (cases "k = t")
    case True
    with Cons.prems kv show ?thesis by (simp add: lookupSubs_Cons)
  next
    case False
    have "distinct (concat (map snd (AList.update t (lookupSubs al t @ [c]) al)))"
      using Cons by simp
    moreover have "set v \<inter> set (concat (map snd (AList.update t (lookupSubs al t @ [c]) al))) = {}"
      unfolding set_concat_update using Cons.prems kv by auto
    ultimately show ?thesis
      using False kv Cons.prems by (simp add: lookupSubs_Cons)
  qed
qed

lemma wf_NewEventBus: "wf_bus NewEventBus"
  by (simp add: wf_bus_def NewEventBus_def)

lemma wf_Subscribe:
  assumes "wf_bus eb"
  shows "wf_bus (snd (Subscribe eb t))"
    and "fst (Subscribe eb t) = length (chans eb)"
    and "fst (Subscribe eb t) \<in> set (lookupSubs (subscribers (snd (Subscribe eb t))) t)"
    and "chans (snd (Subscribe eb t)) = chans eb @ [\<lparr>buf = [], cap = 100, is_closed = False\<rparr>]"
proof -
  let ?al = "subscribers eb"
  let ?c = "length (chans eb)"
  have fresh: "?c \<notin> set (concat (map snd ?al))"
    using assms unfolding wf_bus_def by blast
  have d: "distinct (concat (map snd (AList.update t (lookupSubs ?al t @ [?c]) ?al)))"
    using assms fresh distinct_concat_update unfolding wf_bus_def by blast
  have v: "\<forall>ch \<in> set (concat (map snd (AList.update t (lookupSubs ?al t @ [?c]) ?al))).
             ch < length (chans eb @ [\<lparr>buf = [], cap = 100, is_closed = False\<rparr>])
             \<and> \<not> is_closed ((chans eb @ [\<lparr>buf = [], cap = 100, is_closed = False\<rparr>]) ! ch)"
  proof
    fix ch assume "ch \<in> set (concat (map snd (AList.update t (lookupSubs ?al t @ [?c]) ?al)))"
    then have "ch = ?c \<or> ch \<in> set (concat (map snd ?al))"
      unfolding set_concat_update by simp
    then have "ch = ?c \<or> (ch < ?c \<and> \<not> is_closed (chans eb ! ch))"
      using assms unfolding wf_bus_def by blast
    then show "ch < length (chans eb @ [\<lparr>buf = [], cap = 100, is_closed = False\<rparr>])
             \<and> \<not> is_closed ((chans eb @ [\<lparr>buf = [], cap = 100, is_closed = False\<rparr>]) ! ch)"
      by (auto simp: nth_append)
  qed
  show "wf_bus (snd (Subscribe eb t))"
    using d v by (simp add: wf_bus_def Subscribe_def Let_def)
  show "fst (Subscribe eb t) = length (chans eb)"
    by (simp add: Subscribe_def Let_def)
  show "fst (Subscribe eb t) \<in> set (lookupSubs (subscribers (snd (Subscribe eb t))) t)"
    by (simp add: Subscribe_def Let_def lookupSubs_update)
  show "chans (snd (Subscribe eb t)) = chans eb @ [\<lparr>buf = [], cap = 100, is_closed = False\<rparr>]"
    by (simp add: Subscribe_def Let_def)
qed

lemma Publish_wf:
  assumes "wf_bus eb"
  shows "\<exists>eb'. Publish eb e = Some eb' \<and> subscribers eb' = subscribers eb
           \<and> length (chans eb') = length (chans eb) \<and> wf_bus eb'
           \<and> (\<forall>a < length (chans eb). chans eb' ! a =
                (if a \<in> set (lookupSubs (subscribers eb) (bus_Type e))
                    \<and> length (buf (chans eb ! a)) < cap (chans eb ! a)
                 then (chans eb ! a)\<lparr>buf := buf (chans eb ! a) @ [e]\<rparr>
                 else chans eb ! a))"
proof -
  let ?chs = "lookupSubs (subscribers eb) (bus_Type e)"
  have d: "distinct ?chs"
    using assms lookupSubs_distinct unfolding wf_bus_def by blast
  have v: "\<forall>ch \<in> set ?chs. ch < length (chans eb) \<and> \<not> is_closed (chans eb ! ch)"
    using assms lookupSubs_subset unfolding wf_bus_def by blast
  from sendLoop_spec [OF d v, of e] obtain cs' where
    s: "sendLoop ?chs e (chans eb) = Some cs'" and l: "length cs' = length (chans eb)"
    and n: "\<forall>a < length (chans eb). cs' ! a =
           (if a \<in> set ?chs \<and> length (buf (chans eb ! a)) < cap (chans eb ! a)
            then (chans eb ! a)\<lparr>buf := buf (chans eb ! a) @ [e]\<rparr> else chans eb ! a)"
    by blast
  have p: "Publish eb e = Some (eb\<lparr>chans := cs'\<rparr>)"
    using s by (simp add: Publish_def)
  have open': "\<forall>ch \<in> set (concat (map snd (subscribers eb))).
                 ch < length cs' \<and> \<not> is_closed (cs' ! ch)"
  proof
    fix ch assume "ch \<in> set (concat (map snd (subscribers eb)))"
    then have c: "ch < length (chans eb)" "\<not> is_closed (chans eb ! ch)"
      using assms unfolding wf_bus_def by blast+
    with n l show "ch < length cs' \<and> \<not> is_closed (cs' ! ch)" by simp
  qed
  have w: "wf_bus (eb\<lparr>chans := cs'\<rparr>)"
    using assms open' by (simp add: wf_bus_def)
  show ?thesis using p l n w by simp
qed

lemma publishAll_fill:
  "wf_bus eb \<Longrightarrow> ch \<in> set (lookupSubs (subscribers eb) t) \<Longrightarrow>
   \<forall>e \<in> set es. bus_Type e = t \<Longrightarrow>
   \<exists>eb'. publishAll eb es = Some eb' \<and>
     buf (chans eb' ! ch) =
       buf (chans eb ! ch) @ take (cap (chans eb ! ch) - length (buf (chans eb ! ch))) es"
proof (induction es arbitrary: eb)
  case Nil
  then show ?case by simp
next
  case (Cons e es)
  from Publish_wf [OF Cons.prems(1), of e] obtain eb1 where
    p: "Publish eb e = Some eb1" and s: "subscribers eb1 = subscribers eb"
    and w: "wf_bus eb1"
    and n: "\<forall>a < length (chans eb). chans eb1 ! a =
                (if a \<in> set (lookupSubs (subscribers eb) (bus_Type e))
                    \<and> length (buf (chans eb ! a)) < cap (chans eb ! a)
                 then (chans eb ! a)\<lparr>buf := buf (chans eb ! a) @ [e]\<rparr>
                 else chans eb ! a)"
    by blast
  have chlt: "ch < length (chans eb)"
    using Cons.prems(1,2) lookupSubs_subset unfolding wf_bus_def by blast
  have ty: "bus_Type e = t" using Cons.prems(3) by simp
  have c1: "chans eb1 ! ch =
      (if length (buf (chans eb ! ch)) < cap (chans eb ! ch)
       then (chans eb ! ch)\<lparr>buf := buf (chans eb ! ch) @ [e]\<rparr> else chans eb ! ch)"
    using n chlt Cons.prems(2) ty by simp
  have "ch \<in> set (lookupSubs (subscribers eb1) t)" using s Cons.prems(2) by simp
  moreover have "\<forall>e \<in> set es. bus_Type e = t" using Cons.prems(3) by simp
  ultimately obtain eb' where
    pa: "publishAll eb1 es = Some eb'" and
    b: "buf (chans eb' ! ch) =
       buf (chans eb1 ! ch) @ take (cap (chans eb1 ! ch) - length (buf (chans eb1 ! ch))) es"
    using Cons.IH [OF w] by blast
  have "publishAll eb (e # es) = Some eb'" using p pa by simp
  moreover have "buf (chans eb' ! ch) =
       buf (chans eb ! ch) @ take (cap (chans eb ! ch) - length (buf (chans eb ! ch))) (e # es)"
  proof (cases "length (buf (chans eb ! ch)) < cap (chans eb ! ch)")
    case True
    then obtain k where k: "cap (chans eb ! ch) - length (buf (chans eb ! ch)) = Suc k"
      by (metis Suc_diff_Suc)
    then have "cap (chans eb ! ch) - Suc (length (buf (chans eb ! ch))) = k" by simp
    with b c1 True k show ?thesis by simp
  next
    case False
    with b c1 show ?thesis by simp
  qed
  ultimately show ?case by blast
qed

lemma Close_wf:
  assumes "wf_bus eb"
  shows "\<exists>eb'. Close eb = Some eb' \<and> subscribers eb' = []
           \<and> length (chans eb') = length (chans eb)
           \<and> (\<forall>a < length (chans eb). chans eb' ! a =
                (if a \<in> set (concat (map snd (subscribers eb)))
                 then (chans eb ! a)\<lparr>is_closed := True\<rparr> else chans eb ! a))"
proof -
  have d: "distinct (concat (map snd (subscribers eb)))"
    and v: "\<forall>ch \<in> set (concat (map snd (subscribers eb))).
              ch < length (chans eb) \<and> \<not> is_closed (chans eb ! ch)"
    using assms unfolding wf_bus_def by blast+
  from closeLoop_spec [OF d v] obtain cs' where
    "closeLoop (concat (map snd (subscribers eb))) (chans eb) = Some cs'"
    "length cs' = length (chans eb)"
    "\<forall>a < length (chans eb). cs' ! a =
        (if a \<in> set (concat (map snd (subscribers eb)))
         then (chans eb ! a)\<lparr>is_closed := True\<rparr> else chans eb ! a)"
    by blast
  then show ?thesis by (simp add: Close_def)
qed

lemma Publish_no_subscribers: "subscribers eb = [] \<Longrightarrow> Publish eb e = Some eb"
  by (simp add: Publish_def lookupSubs_def)

lemma publishAll_no_subscribers: "subscribers eb = [] \<Longrightarrow> publishAll eb es = Some eb"
  by (induction es) (simp_all add: Publish_no_subscribers)


lemma remove1_update_facts:
  "distinct (concat (map snd al)) \<Longrightarrow> c \<in> set (lookupSubs al t) \<Longrightarrow>
   distinct (concat (map snd (AList.update t (remove1 c (lookupSubs al t)) al)))
   \<and> set (concat (map snd (AList.update t (remove1 c (lookupSubs al t)) al)))
       = set (concat (map snd al)) - {c}"
proof (induction al)
  case Nil
  then show ?case by (simp add: lookupSubs_def)
next
  case (Cons kv al)
  obtain k v where kv: "kv = (k, v)" by (cases kv)
  show ?case
  proof (cases "k = t")
    case True
    with Cons.prems kv have cv: "c \<in> set v" by (simp add: lookupSubs_Cons)
    with Cons.prems(1) kv have "c \<notin> set (concat (map snd al))" by auto
    with True kv Cons.prems(1) cv show ?thesis
      by (auto simp: lookupSubs_Cons)
  next
    case False
    with Cons.prems kv have cin: "c \<in> set (lookupSubs al t)" by (simp add: lookupSubs_Cons)
    have d: "distinct (concat (map snd al))" using Cons.prems(1) by simp
    note ih = Cons.IH [OF d cin]
    have "c \<in> set (concat (map snd al))" using cin lookupSubs_subset by blast
    with Cons.prems(1) kv have "c \<notin> set v" by auto
    with False kv Cons.prems(1) ih show ?thesis
      by (auto simp: lookupSubs_Cons)
  qed
qed

lemma wf_unsubscribe:
  assumes "wf_bus eb" and "unsubscribe eb t ch = Some eb'"
  shows "wf_bus eb'"
proof (cases "ch \<in> set (lookupSubs (subscribers eb) t)")
  case False
  with assms show ?thesis by (simp add: unsubscribe_def)
next
  case True
  have d: "distinct (concat (map snd (subscribers eb)))"
    and v: "\<forall>a \<in> set (concat (map snd (subscribers eb))).
              a < length (chans eb) \<and> \<not> is_closed (chans eb ! a)"
    using assms(1) unfolding wf_bus_def by blast+
  have chin: "ch \<in> set (concat (map snd (subscribers eb)))"
    using True lookupSubs_subset by blast
  then have c: "ch < length (chans eb)" "\<not> is_closed (chans eb ! ch)" using v by blast+
  have eb': "eb' = \<lparr>subscribers = AList.update t (remove1 ch (lookupSubs (subscribers eb) t))
                                     (subscribers eb),
                    chans = (chans eb)[ch := (chans eb ! ch)\<lparr>is_closed := True\<rparr>]\<rparr>"
    using assms(2) True c by (simp add: unsubscribe_def)
  note f = remove1_update_facts [OF d True]
  show ?thesis
    unfolding eb' wf_bus_def using f v by (auto simp: nth_list_update)
qed

lemma wf_Close: "Close eb = Some eb' \<Longrightarrow> wf_bus eb'"
  by (auto simp: Close_def wf_bus_def split: option.splits)

lemma wf_receive: "wf_bus eb \<Longrightarrow> wf_bus (receive eb ch)"
  by (auto simp: receive_def wf_bus_def nth_list_update)

lemma reachable_wf_bus: "reachable eb \<Longrightarrow> wf_bus eb"
proof (induction rule: reachable.induct)
  case new
  show ?case by (rule wf_NewEventBus)
next
  case (subscribe eb t)
  then show ?case by (simp add: wf_Subscribe(1))
next
  case (publish eb e eb')
  from Publish_wf [OF publish.IH, of e] publish.hyps(2) show ?case by auto
next
  case (unsubscribe eb t ch eb')
  then show ?case using wf_unsubscribe by blast
next
  case (close eb eb')
  then show ?case using wf_Close by blast
next
  case (receive eb ch)
  then show ?case by (simp add: wf_receive)
qed

text \<open>
  Claim C6. On a bus in a state reached between calls, \<open>Publish\<close> returns (no panic,
  and it has no error to return) and leaves the subscriber table as it was. Every
  channel registered for the type of the event whose queue has room gets the event at
  the end of its queue; every other channel, a full one or one registered for another
  type, is left as it was. A channel made by \<open>Subscribe\<close> has capacity 100: after any
  number of events of its type are published with nothing received, it holds the
  first 100 of them at most.
\<close>

theorem Publish_delivers_or_drops:
  assumes "wf_bus eb"
  shows "(\<exists>eb'. Publish eb e = Some eb' \<and> subscribers eb' = subscribers eb
            \<and> length (chans eb') = length (chans eb)
            \<and> (\<forall>a < length (chans eb). chans eb' ! a =
                 (if a \<in> set (lookupSubs (subscribers eb) (bus_Type e))
                     \<and> length (buf (chans eb ! a)) < cap (chans eb ! a)
                  then (chans eb ! a)\<lparr>buf := buf (chans eb ! a) @ [e]\<rparr>
                  else chans eb ! a)))
         \<and> ((\<forall>x \<in> set es. bus_Type x = t) \<longrightarrow>
              (\<exists>eb'. publishAll (snd (Subscribe eb t)) es = Some eb'
                 \<and> buf (chans eb' ! fst (Subscribe eb t)) = take 100 es))"
proof -
  have one: "\<exists>eb'. Publish eb e = Some eb' \<and> subscribers eb' = subscribers eb
            \<and> length (chans eb') = length (chans eb)
            \<and> (\<forall>a < length (chans eb). chans eb' ! a =
                 (if a \<in> set (lookupSubs (subscribers eb) (bus_Type e))
                     \<and> length (buf (chans eb ! a)) < cap (chans eb ! a)
                  then (chans eb ! a)\<lparr>buf := buf (chans eb ! a) @ [e]\<rparr>
                  else chans eb ! a))"
    using Publish_wf [OF assms, of e] by blast
  have many: "\<exists>eb'. publishAll (snd (Subscribe eb t)) es = Some eb'
                 \<and> buf (chans eb' ! fst (Subscribe eb t)) = take 100 es"
    if ty: "\<forall>x \<in> set es. bus_Type x = t"
  proof -
    let ?ch = "fst (Subscribe eb t)" and ?eb = "snd (Subscribe eb t)"
    have c: "chans ?eb ! ?ch = \<lparr>buf = [], cap = 100, is_closed = False\<rparr>"
      using wf_Subscribe(2,4) [OF assms, of t] by simp
    from publishAll_fill [OF wf_Subscribe(1) [OF assms] wf_Subscribe(3) [OF assms] ty]
    show ?thesis unfolding c by simp
  qed
  from one many show ?thesis by blast
qed

text \<open>
  One subscriber of type agent on a new bus, 150 events of that type published and
  none received: the call sequence returns and the queue holds 100 events.
\<close>

theorem Publish_delivers_or_drops_witness:
  "wf_bus NewEventBus
   \<and> (\<exists>eb'. publishAll (snd (Subscribe NewEventBus ''agent''))
               (replicate 150 (agentEvent ''a1'')) = Some eb'
          \<and> buf (chans eb' ! 0) = replicate 100 (agentEvent ''a1''))"
proof -
  have w: "wf_bus NewEventBus"
    by (simp add: wf_bus_def NewEventBus_def)
  have ty: "\<forall>x \<in> set (replicate 150 (agentEvent ''a1'')). bus_Type x = ''agent''"
    by (simp add: agentEvent_def)
  have ch: "fst (Subscribe NewEventBus ''agent'') = 0"
    by (simp add: Subscribe_def NewEventBus_def)
  from Publish_delivers_or_drops [OF w, of _ "replicate 150 (agentEvent ''a1'')" "''agent''"]
    ty ch w
  show ?thesis by simp
qed

text \<open>
  Claim C9. \<open>Close\<close> on a bus in a state reached between calls returns (no panic) with
  an empty subscriber table, and every \<open>Publish\<close> on the bus it leaves, and every
  sequence of them, returns that bus unchanged: no channel, registered before or not,
  receives the event.
\<close>

theorem Close_then_Publish_noop:
  assumes "wf_bus eb"
  shows "\<exists>eb'. Close eb = Some eb' \<and> subscribers eb' = []
           \<and> (\<forall>e. Publish eb' e = Some eb')
           \<and> (\<forall>es. publishAll eb' es = Some eb')"
proof -
  from Close_wf [OF assms] obtain eb' where
    c: "Close eb = Some eb'" and s: "subscribers eb' = []"
    by blast
  have "\<forall>e. Publish eb' e = Some eb'"
    using s by (simp add: Publish_no_subscribers)
  moreover have "\<forall>es. publishAll eb' es = Some eb'"
    using s by (simp add: publishAll_no_subscribers)
  ultimately show ?thesis using c s by blast
qed

text \<open>
  A bus with one subscriber, closed: the table is empty, the subscriber's channel is
  closed, and a publish of its event type changes nothing.
\<close>

theorem Close_then_Publish_noop_witness:
  "wf_bus (snd (Subscribe NewEventBus ''agent''))
   \<and> Close (snd (Subscribe NewEventBus ''agent''))
       = Some \<lparr>subscribers = [], chans = [\<lparr>buf = [], cap = 100, is_closed = True\<rparr>]\<rparr>
   \<and> Publish \<lparr>subscribers = [], chans = [\<lparr>buf = [], cap = 100, is_closed = True\<rparr>]\<rparr>
         (agentEvent ''a1'')
       = Some \<lparr>subscribers = [], chans = [\<lparr>buf = [], cap = 100, is_closed = True\<rparr>]\<rparr>"
proof -
  have w: "wf_bus (snd (Subscribe NewEventBus ''agent''))"
    by (simp add: wf_bus_def Subscribe_def NewEventBus_def lookupSubs_def)
  have c: "Close (snd (Subscribe NewEventBus ''agent''))
       = Some \<lparr>subscribers = [], chans = [\<lparr>buf = [], cap = 100, is_closed = True\<rparr>]\<rparr>"
    by (simp add: Close_def Subscribe_def NewEventBus_def lookupSubs_def)
  from Close_then_Publish_noop [OF w] c w
  show ?thesis by simp
qed

section \<open>Properties of the agent sandbox\<close>

lemma Validate_None_iff:
  "Validate l = None \<longleftrightarrow> 1 \<le> MaxMemoryPages l \<and> MaxMemoryPages l \<le> 65536"
proof -
  have "MaxMemoryPages l = 0 \<longleftrightarrow> \<not> 1 \<le> MaxMemoryPages l"
    by (simp add: word_le_nat_alt not_le unat_eq_0)
  then show ?thesis by (auto simp: Validate_def not_less)
qed

lemma replicate_two: "replicate 2 x = [x, x]"
  by (simp add: numeral_2_eq_2)

text \<open>
  Claim C4 as stated fails: limits with 256 pages and a fuel bound of 0 pass
  \<open>Validate\<close>, and \<open>New\<close> goes on to allocate the runtime and returns an agent.
\<close>

theorem agent_New_zero_fuel_counterexample:
  "Validate \<lparr>MaxMemoryPages = 256, MaxFuel = 0\<rparr> = None
   \<and> agent_New okRuntime \<lparr>cfg_ID = ''a1'', Code = [], MemSize = 2\<rparr>
        \<lparr>MaxMemoryPages = 256, MaxFuel = 0\<rparr>
     = (Inr \<lparr>sandbox_ID = ''a1'', sandbox_memory = [0, 0]\<rparr>,
        [Runtime 256, HostModule, Compiled, Instance, Buffer 2])"
  by (simp add: Validate_def agent_New_def okRuntime_def replicate_two)

text \<open>
  Claim C4, amended. \<open>New\<close> rejects every \<open>ResourceLimits\<close> whose page bound is outside
  1..65536 with the "invalid resource limits" error, whatever the configuration and
  the runtime, and has then allocated nothing; a page bound of 0 is such a case.
\<close>

theorem agent_New_rejects_bad_pages:
  "(\<not> (1 \<le> MaxMemoryPages l \<and> MaxMemoryPages l \<le> 65536) \<longrightarrow>
      (\<exists>msg. Validate l = Some msg
         \<and> agent_New w cfg l = (Inl (InvalidResourceLimits msg), [])))
   \<and> (MaxMemoryPages l = 0 \<longrightarrow>
        agent_New w cfg l =
          (Inl (InvalidResourceLimits ''MaxMemoryPages must be greater than 0''), []))"
proof -
  have "\<exists>msg. Validate l = Some msg \<and> agent_New w cfg l = (Inl (InvalidResourceLimits msg), [])"
    if "\<not> (1 \<le> MaxMemoryPages l \<and> MaxMemoryPages l \<le> 65536)"
  proof -
    from that have "Validate l \<noteq> None" by (simp add: Validate_None_iff)
    then obtain msg where "Validate l = Some msg" by blast
    then show ?thesis by (simp add: agent_New_def)
  qed
  moreover have "MaxMemoryPages l = 0 \<Longrightarrow> agent_New w cfg l =
          (Inl (InvalidResourceLimits ''MaxMemoryPages must be greater than 0''), [])"
    by (simp add: agent_New_def Validate_def)
  ultimately show ?thesis by blast
qed

theorem agent_New_rejects_bad_pages_witness:
  "agent_New okRuntime \<lparr>cfg_ID = ''a1'', Code = [], MemSize = 0\<rparr>
        \<lparr>MaxMemoryPages = 0, MaxFuel = 1000000\<rparr>
     = (Inl (InvalidResourceLimits ''MaxMemoryPages must be greater than 0''), [])
   \<and> (\<exists>msg. agent_New okRuntime \<lparr>cfg_ID = ''a1'', Code = [], MemSize = 0\<rparr>
               \<lparr>MaxMemoryPages = 65537, MaxFuel = 1000000\<rparr>
             = (Inl (InvalidResourceLimits msg), []))"
proof -
  note zero = agent_New_rejects_bad_pages [of "\<lparr>MaxMemoryPages = 0, MaxFuel = 1000000\<rparr>"
      okRuntime "\<lparr>cfg_ID = ''a1'', Code = [], MemSize = 0\<rparr>"]
  note big = agent_New_rejects_bad_pages [of "\<lparr>MaxMemoryPages = 65537, MaxFuel = 1000000\<rparr>"
      okRuntime "\<lparr>cfg_ID = ''a1'', Code = [], MemSize = 0\<rparr>"]
  have a: "agent_New okRuntime \<lparr>cfg_ID = ''a1'', Code = [], MemSize = 0\<rparr>
        \<lparr>MaxMemoryPages = 0, MaxFuel = 1000000\<rparr>
     = (Inl (InvalidResourceLimits ''MaxMemoryPages must be greater than 0''), [])"
    using zero by simp
  have b: "\<exists>msg. agent_New okRuntime \<lparr>cfg_ID = ''a1'', Code = [], MemSize = 0\<rparr>
               \<lparr>MaxMemoryPages = 65537, MaxFuel = 1000000\<rparr>
             = (Inl (InvalidResourceLimits msg), [])"
    using big by auto
  from a b show ?thesis by blast
qed

text \<open>
  Claim C1 (the host calls are empty). On a guest memory of four bytes, \<open>log\<close> with
  offset 2 and length 8 reaches past the end of the memory and returns without
  \<open>InvalidAccess\<close>; \<open>log\<close> with offset 0 and length 4 is within bounds and leaves the
  log sink empty; \<open>send\<close>, \<open>get_memory\<close> and \<open>set_memory\<close> within bounds likewise
  leave the outbound messages, the guest memory and the working buffer as they were.
\<close>

theorem host_calls_do_nothing:
  "hostLog \<lparr>guestMemory = [1, 2, 3, 4], agentMemory = [0, 0, 0, 0],
            logSink = [], outbound = []\<rparr> 2 8
     = (None, \<lparr>guestMemory = [1, 2, 3, 4], agentMemory = [0, 0, 0, 0],
               logSink = [], outbound = []\<rparr>)
   \<and> hostLog \<lparr>guestMemory = [1, 2, 3, 4], agentMemory = [0, 0, 0, 0],
            logSink = [], outbound = []\<rparr> 0 4
     = (None, \<lparr>guestMemory = [1, 2, 3, 4], agentMemory = [0, 0, 0, 0],
               logSink = [], outbound = []\<rparr>)
   \<and> hostSend \<lparr>guestMemory = [1, 2, 3, 4], agentMemory = [0, 0, 0, 0],
            logSink = [], outbound = []\<rparr> 0 2 2 2
     = (None, \<lparr>guestMemory = [1, 2, 3, 4], agentMemory = [0, 0, 0, 0],
               logSink = [], outbound = []\<rparr>)
   \<and> hostGetMemory \<lparr>guestMemory = [1, 2, 3, 4], agentMemory = [0, 0, 0, 0],
            logSink = [], outbound = []\<rparr> 0 4
     = (None, \<lparr>guestMemory = [1, 2, 3, 4], agentMemory = [0, 0, 0, 0],
               logSink = [], outbound = []\<rparr>)
   \<and> hostSetMemory \<lparr>guestMemory = [1, 2, 3, 4], agentMemory = [0, 0, 0, 0],
            logSink = [], outbound = []\<rparr> 0 4
     = (None, \<lparr>guestMemory = [1, 2, 3, 4], agentMemory = [0, 0, 0, 0],
               logSink = [], outbound = []\<rparr>)"
  by (simp add: hostLog_def hostSend_def hostGetMemory_def hostSetMemory_def)

end
